theory Spec2Isabelle
  imports Main "HOL-Library.Sublist"
begin

section \<open>Data model\<close>

text \<open>
  The development embeds \<^verbatim>\<open>treeherder/log_parser/artifactbuilders.pyx\<close>: the class
  \<^verbatim>\<open>ArtifactBuilderBase\<close> with its methods \<^verbatim>\<open>parse_line\<close> and \<^verbatim>\<open>get_artifact\<close>, and
  the three subclasses that only differ in their constructor.

  An exception raised by a sub-parser is a value; the builder never inspects it.
\<close>

datatype exn = Exception string

text \<open>
  Modelled from the spec: the sub-parser classes live in \<^verbatim>\<open>parsers.py\<close>, which the
  builder imports. A sub-parser object is given by the capability contract: a \<^verbatim>\<open>name\<close>
  (fixed when the object is made), its mutable attributes \<open>sp_state\<close>, the
  \<^verbatim>\<open>complete\<close> attribute read from them, the method \<^verbatim>\<open>parse_line(line, lineno)\<close> that
  updates the attributes and either returns (\<open>None\<close>) or raises (\<open>Some e\<close>), and the
  method \<^verbatim>\<open>get_artifact()\<close> that reads the attributes and returns a value or raises.
  Sub-parsers share no state with each other.
\<close>

record ('s, 'v) sub_parser =
  sp_name :: string
  sp_state :: 's
  sp_complete :: "'s \<Rightarrow> bool"
  sp_parse_line :: "string \<Rightarrow> int \<Rightarrow> 's \<Rightarrow> exn option \<times> 's"
  sp_get_artifact :: "'s \<Rightarrow> exn + 'v"

text \<open>
  The names imported from \<^verbatim>\<open>.parsers\<close>. A call such as \<^verbatim>\<open>HeaderParser()\<close> yields a new
  object in its initial state; \<^verbatim>\<open>StepParser\<close> is called with \<^verbatim>\<open>check_errors\<close>.
\<close>

record ('s, 'v) parsers_module =
  ErrorParser :: "('s, 'v) sub_parser"
  TinderboxPrintParser :: "('s, 'v) sub_parser"
  HeaderParser :: "('s, 'v) sub_parser"
  StepParser :: "bool \<Rightarrow> ('s, 'v) sub_parser"
  TalosParser :: "('s, 'v) sub_parser"

text \<open>
  A value of the artifact dictionary: the url given to the constructor (\<open>None\<close> for
  Python's \<^verbatim>\<open>None\<close>), or what a sub-parser's \<^verbatim>\<open>get_artifact\<close> returned.
\<close>

datatype 'v entry = LogUrl "string option" | ParserArtifact 'v

record ('s, 'v) builder =
  artifact :: "string \<rightharpoonup> 'v entry"
  lineno :: int
  parsers :: "('s, 'v) sub_parser list"
  name :: string

section \<open>Constructors\<close>

definition MAX_LINE_LENGTH :: nat where
  "MAX_LINE_LENGTH = 500"

definition ArtifactBuilderBase :: "string option \<Rightarrow> ('s, 'v) builder" where
  "ArtifactBuilderBase url =
     \<lparr> artifact = [''logurl'' \<mapsto> LogUrl url],
       lineno = 0,
       parsers = [],
       name = ''Generic Artifact'' \<rparr>"

definition BuildbotJobArtifactBuilder ::
  "('s, 'v) parsers_module \<Rightarrow> string option \<Rightarrow> ('s, 'v) builder" where
  "BuildbotJobArtifactBuilder M url =
     (ArtifactBuilderBase url)
       \<lparr> parsers := [TinderboxPrintParser M],
         name := ''Job Info'' \<rparr>"

definition BuildbotLogViewArtifactBuilder ::
  "('s, 'v) parsers_module \<Rightarrow> string option \<Rightarrow> bool \<Rightarrow> ('s, 'v) builder" where
  "BuildbotLogViewArtifactBuilder M url check_errors =
     (ArtifactBuilderBase url)
       \<lparr> parsers := [HeaderParser M, StepParser M check_errors],
         name := ''Structured Log'' \<rparr>"

definition BuildbotPerformanceDataArtifactBuilder ::
  "('s, 'v) parsers_module \<Rightarrow> string option \<Rightarrow> bool \<Rightarrow> ('s, 'v) builder" where
  "BuildbotPerformanceDataArtifactBuilder M url check_errors =
     (ArtifactBuilderBase url)
       \<lparr> parsers := [TalosParser M],
         name := ''talos_data'' \<rparr>"

section \<open>Processing a line\<close>

text \<open>
  The loop \<^verbatim>\<open>for parser in self.parsers\<close> of \<^verbatim>\<open>parse_line\<close>. The objects are updated
  in place, so the list returned holds every object as the loop left it, also when
  a call raised: the objects before the raising one have consumed the line, the raising
  one is as its method left it, the ones after it are untouched.
\<close>

fun dispatch ::
  "('s, 'v) sub_parser list \<Rightarrow> string \<Rightarrow> int \<Rightarrow> exn option \<times> ('s, 'v) sub_parser list" where
  "dispatch [] line n = (None, [])"
| "dispatch (parser # rest) line n =
     (if \<not> sp_complete parser (sp_state parser) then
        (case sp_parse_line parser line n (sp_state parser) of
           (Some e, s') \<Rightarrow> (Some e, parser\<lparr>sp_state := s'\<rparr> # rest)
         | (None, s') \<Rightarrow>
             (case dispatch rest line n of
                (r, rest') \<Rightarrow> (r, parser\<lparr>sp_state := s'\<rparr> # rest')))
      else
        (case dispatch rest line n of (r, rest') \<Rightarrow> (r, parser # rest')))"

text \<open>
  \<^verbatim>\<open>parse_line\<close> returns nothing (\<open>None\<close>) or raises what a sub-parser raised
  (\<open>Some e\<close>); the second component is the builder after the call. Python's
  \<^verbatim>\<open>"TALOSDATA" not in line\<close> is the substring test, \<^verbatim>\<open>line[:500]\<close> is \<open>take\<close>.
\<close>

definition parse_line ::
  "('s, 'v) builder \<Rightarrow> string \<Rightarrow> exn option \<times> ('s, 'v) builder" where
  "parse_line self line0 =
     (let line = (if \<not> sublist ''TALOSDATA'' line0 \<and> \<not> sublist ''TalosResult'' line0
                  then take MAX_LINE_LENGTH line0 else line0)
      in case dispatch (parsers self) line (lineno self) of
           (Some e, ps) \<Rightarrow> (Some e, self\<lparr>parsers := ps\<rparr>)
         | (None, ps) \<Rightarrow> (None, self\<lparr>parsers := ps, lineno := lineno self + 1\<rparr>))"

section \<open>Assembling the artifact\<close>

text \<open>
  The loop \<^verbatim>\<open>for sp in self.parsers\<close> of \<^verbatim>\<open>get_artifact\<close>; the dictionary is updated
  in place, so what was stored before a sub-parser raised stays stored.
\<close>

fun store_artifacts ::
  "('s, 'v) sub_parser list \<Rightarrow> (string \<rightharpoonup> 'v entry) \<Rightarrow> exn option \<times> (string \<rightharpoonup> 'v entry)" where
  "store_artifacts [] art = (None, art)"
| "store_artifacts (sp # rest) art =
     (case sp_get_artifact sp (sp_state sp) of
        Inl e \<Rightarrow> (Some e, art)
      | Inr v \<Rightarrow> store_artifacts rest (art(sp_name sp \<mapsto> ParserArtifact v)))"

definition get_artifact ::
  "('s, 'v) builder \<Rightarrow> (exn + (string \<rightharpoonup> 'v entry)) \<times> ('s, 'v) builder" where
  "get_artifact self =
     (case store_artifacts (parsers self) (artifact self) of
        (Some e, art) \<Rightarrow> (Inl e, self\<lparr>artifact := art\<rparr>)
      | (None, art) \<Rightarrow> (Inr art, self\<lparr>artifact := art\<rparr>))"

section \<open>Vocabulary for the properties\<close>

text \<open>
  What \<^verbatim>\<open>parser.complete\<close> reads, what one call of \<^verbatim>\<open>parser.parse_line(line, n)\<close>
  leaves of the object, and what the call raises when the loop makes it (a complete
  sub-parser is not called, so it raises nothing).
\<close>

definition is_complete :: "('s, 'v) sub_parser \<Rightarrow> bool" where
  "is_complete p = sp_complete p (sp_state p)"

definition invoke :: "('s, 'v) sub_parser \<Rightarrow> string \<Rightarrow> int \<Rightarrow> ('s, 'v) sub_parser" where
  "invoke p line n = p\<lparr>sp_state := snd (sp_parse_line p line n (sp_state p))\<rparr>"

definition raised :: "('s, 'v) sub_parser \<Rightarrow> string \<Rightarrow> int \<Rightarrow> exn option" where
  "raised p line n =
     (if is_complete p then None else fst (sp_parse_line p line n (sp_state p)))"

text \<open>The line handed to the sub-parsers, as \<^verbatim>\<open>parse_line\<close> rebinds \<^verbatim>\<open>line\<close>.\<close>

definition delivered :: "string \<Rightarrow> string" where
  "delivered line0 =
     (if \<not> sublist ''TALOSDATA'' line0 \<and> \<not> sublist ''TalosResult'' line0
      then take MAX_LINE_LENGTH line0 else line0)"

text \<open>
  What \<^verbatim>\<open>sp.get_artifact()\<close> gives for the object as it is now, and the sub-parsers
  whose artifact the loop of \<^verbatim>\<open>get_artifact\<close> stores: those before the first whose
  \<^verbatim>\<open>get_artifact\<close> raises.
\<close>

definition the_artifact :: "('s, 'v) sub_parser \<Rightarrow> exn + 'v" where
  "the_artifact p = sp_get_artifact p (sp_state p)"

definition stored_prefix :: "('s, 'v) sub_parser list \<Rightarrow> ('s, 'v) sub_parser list" where
  "stored_prefix ps = takeWhile (\<lambda>p. \<not> isl (the_artifact p)) ps"

text \<open>
  What holds of the artifact dictionary from construction on: it has the key
  \<^verbatim>\<open>logurl\<close>, its other keys are names of sub-parsers, and \<^verbatim>\<open>logurl\<close> holds the url
  unless a sub-parser goes by that name.
\<close>

definition artifact_inv :: "string option \<Rightarrow> ('s, 'v) builder \<Rightarrow> bool" where
  "artifact_inv url b \<longleftrightarrow>
     ''logurl'' \<in> dom (artifact b)
     \<and> dom (artifact b) \<subseteq> insert ''logurl'' (sp_name ` set (parsers b))
     \<and> (''logurl'' \<notin> sp_name ` set (parsers b) \<longrightarrow> artifact b ''logurl'' = Some (LogUrl url))"

text \<open>A sub-parser whose \<^verbatim>\<open>parse_line\<close> raises on no line, in no state.\<close>

definition never_raises :: "('s, 'v) sub_parser \<Rightarrow> bool" where
  "never_raises p = (\<forall>line n s. fst (sp_parse_line p line n s) = None)"

text \<open>The same object, whatever its attributes now hold: same name, same methods.\<close>

definition same_object :: "('s, 'v) sub_parser \<Rightarrow> ('s, 'v) sub_parser \<Rightarrow> bool" where
  "same_object p q = (q = p\<lparr>sp_state := sp_state q\<rparr>)"

text \<open>
  A caller's use of a builder: a sequence of method calls. A call that raises leaves the
  builder as it was at the raise, and the caller may go on.
\<close>

datatype call = ParseLine string | GetArtifact

fun perform :: "('s, 'v) builder \<Rightarrow> call \<Rightarrow> ('s, 'v) builder" where
  "perform b (ParseLine line) = snd (parse_line b line)"
| "perform b GetArtifact = snd (get_artifact b)"

fun run :: "('s, 'v) builder \<Rightarrow> call list \<Rightarrow> ('s, 'v) builder" where
  "run b [] = b"
| "run b (c # cs) = run (perform b c) cs"

text \<open>
  The number of \<^verbatim>\<open>parse_line\<close> calls of a sequence that returned; \<open>is_parse\<close> picks
  the \<^verbatim>\<open>parse_line\<close> calls out of a sequence.
\<close>

fun parse_returned :: "('s, 'v) builder \<Rightarrow> call \<Rightarrow> bool" where
  "parse_returned b (ParseLine line) = (fst (parse_line b line) = None)"
| "parse_returned b GetArtifact = False"

fun returned_parses :: "('s, 'v) builder \<Rightarrow> call list \<Rightarrow> nat" where
  "returned_parses b [] = 0"
| "returned_parses b (c # cs) =
     (if parse_returned b c then 1 else 0) + returned_parses (perform b c) cs"

fun is_parse :: "call \<Rightarrow> bool" where
  "is_parse (ParseLine line) = True"
| "is_parse GetArtifact = False"

text \<open>The builders the three subclasses construct.\<close>

definition variants ::
  "('s, 'v) parsers_module \<Rightarrow> string option \<Rightarrow> bool \<Rightarrow> ('s, 'v) builder set" where
  "variants M url check_errors =
     {BuildbotJobArtifactBuilder M url,
      BuildbotLogViewArtifactBuilder M url check_errors,
      BuildbotPerformanceDataArtifactBuilder M url check_errors}"

section \<open>Example sub-parsers\<close>

text \<open>
  A sub-parser that keeps the lines it is given, with their numbers. It is complete once
  it has been given the line \<^verbatim>\<open>END\<close>; when it checks errors it raises on the line
  \<^verbatim>\<open>bad\<close>. Its artifact is the list of what it received.
\<close>

record demo_state =
  received :: "(string \<times> int) list"
  checks_errors :: bool

definition demo_parser ::
  "string \<Rightarrow> bool \<Rightarrow> (demo_state, (string \<times> int) list) sub_parser" where
  "demo_parser nm c =
     \<lparr> sp_name = nm,
       sp_state = \<lparr> received = [], checks_errors = c \<rparr>,
       sp_complete = (\<lambda>s. ''END'' \<in> set (map fst (received s))),
       sp_parse_line = (\<lambda>line n s.
          if c \<and> line = ''bad'' then (Some (Exception ''bad line''), s)
          else (None, s\<lparr>received := received s @ [(line, n)]\<rparr>)),
       sp_get_artifact = (\<lambda>s. Inr (received s)) \<rparr>"

definition demo_module :: "(demo_state, (string \<times> int) list) parsers_module" where
  "demo_module =
     \<lparr> ErrorParser = demo_parser ''errors'' True,
       TinderboxPrintParser = demo_parser ''job_details'' True,
       HeaderParser = demo_parser ''header'' True,
       StepParser = demo_parser ''step_data'',
       TalosParser = demo_parser ''talos_data'' False \<rparr>"

section \<open>The dispatch loop\<close>

lemma length_dispatch: "length (snd (dispatch ps line n)) = length ps"
  by (induction ps) (auto split: prod.splits option.splits)

lemma dispatch_Cons:
  "dispatch (p # ps) line n =
     (if is_complete p then (fst (dispatch ps line n), p # snd (dispatch ps line n))
      else if raised p line n \<noteq> None then (raised p line n, invoke p line n # ps)
      else (fst (dispatch ps line n), invoke p line n # snd (dispatch ps line n)))"
  by (auto simp: is_complete_def raised_def invoke_def split: prod.splits option.splits)

lemma dispatch_nth:
  "i < length ps \<Longrightarrow>
   snd (dispatch ps line n) ! i =
     (if is_complete (ps ! i) \<or> (\<exists>j<i. raised (ps ! j) line n \<noteq> None) then ps ! i
      else invoke (ps ! i) line n)"
proof (induction ps arbitrary: i)
  case Nil
  then show ?case by simp
next
  case (Cons p ps)
  show ?case
  proof (cases i)
    case 0
    then show ?thesis by (simp add: dispatch_Cons del: dispatch.simps(2))
  next
    case (Suc k)
    with Cons.prems have k: "k < length ps" by simp
    have ex: "(\<exists>j<Suc k. raised ((p # ps) ! j) line n \<noteq> None) \<longleftrightarrow>
              raised p line n \<noteq> None \<or> (\<exists>j<k. raised (ps ! j) line n \<noteq> None)"
      by (auto simp: less_Suc_eq_0_disj)
    show ?thesis
      using Cons.IH [OF k] k unfolding Suc ex
      by (auto simp: dispatch_Cons raised_def simp del: dispatch.simps(2))
  qed
qed

lemma dispatch_fst:
  "fst (dispatch ps line n) =
     (case find (\<lambda>p. raised p line n \<noteq> None) ps of
        None \<Rightarrow> None
      | Some p \<Rightarrow> raised p line n)"
  by (induction ps) (auto simp: dispatch_Cons raised_def simp del: dispatch.simps(2))

lemma dispatch_raises_iff:
  "fst (dispatch ps line n) = Some e \<longleftrightarrow>
     (\<exists>i<length ps. raised (ps ! i) line n = Some e
        \<and> (\<forall>j<i. raised (ps ! j) line n = None))"
  (is "?L \<longleftrightarrow> ?R")
proof
  let ?P = "\<lambda>p. raised p line n \<noteq> None"
  assume ?L
  then obtain p where p: "find ?P ps = Some p" "raised p line n = Some e"
    unfolding dispatch_fst by (cases "find ?P ps") simp_all
  from p(1) obtain i where "i < length ps" "p = ps ! i" "\<forall>j<i. \<not> ?P (ps ! j)"
    unfolding find_Some_iff by blast
  with p(2) show ?R
    by auto
next
  let ?P = "\<lambda>p. raised p line n \<noteq> None"
  assume ?R
  then obtain i where i: "i < length ps" "raised (ps ! i) line n = Some e"
    "\<forall>j<i. raised (ps ! j) line n = None"
    by blast
  then have "find ?P ps = Some (ps ! i)"
    unfolding find_Some_iff by auto
  with i(2) show ?L
    unfolding dispatch_fst by simp
qed

lemma dispatch_returns_iff:
  "fst (dispatch ps line n) = None \<longleftrightarrow> (\<forall>i<length ps. raised (ps ! i) line n = None)"
  unfolding dispatch_fst
  by (auto simp: find_None_iff find_Some_iff in_set_conv_nth split: option.splits)

section \<open>One call of \<open>parse_line\<close>\<close>

lemma parse_line_eq:
  "parse_line b line =
     (fst (dispatch (parsers b) (delivered line) (lineno b)),
      b\<lparr>parsers := snd (dispatch (parsers b) (delivered line) (lineno b)),
        lineno := (if fst (dispatch (parsers b) (delivered line) (lineno b)) = None
                   then lineno b + 1 else lineno b)\<rparr>)"
  by (auto simp: parse_line_def delivered_def Let_def split: prod.splits option.splits)

lemma parse_line_parsers_nth:
  "i < length (parsers b) \<Longrightarrow>
   parsers (snd (parse_line b line)) ! i =
     (if is_complete (parsers b ! i)
         \<or> (\<exists>j<i. raised (parsers b ! j) (delivered line) (lineno b) \<noteq> None)
      then parsers b ! i
      else invoke (parsers b ! i) (delivered line) (lineno b))"
  by (simp add: parse_line_eq dispatch_nth)

lemma demo_job_builder:
  "parsers (BuildbotJobArtifactBuilder demo_module url) = [demo_parser ''job_details'' True]"
  "lineno (BuildbotJobArtifactBuilder demo_module url) = 0"
  by (simp_all add: BuildbotJobArtifactBuilder_def ArtifactBuilderBase_def demo_module_def)

lemma demo_long_line_unmarked:
  "\<not> sublist ''TALOSDATA'' (replicate 600 CHR ''x'')"
  "\<not> sublist ''TalosResult'' (replicate 600 CHR ''x'')"
  by (auto dest: set_mono_sublist)

lemma demo_long_line_not_bad: "replicate n CHR ''x'' \<noteq> ''bad''"
proof
  assume eq: "replicate n CHR ''x'' = ''bad''"
  then have "length (replicate n CHR ''x'') = length ''bad''"
    by (rule arg_cong)
  then have "n = 3"
    by simp
  with eq show False
    by (simp add: numeral_3_eq_3)
qed

text \<open>
  C1. A line that contains neither \<^verbatim>\<open>TALOSDATA\<close> nor \<^verbatim>\<open>TalosResult\<close> reaches the
  sub-parsers cut to its first 500 characters: every sub-parser that is not complete
  and that the loop gets to (no sub-parser before it raised) is left as one call of
  its \<^verbatim>\<open>parse_line\<close> on \<open>take 500 line\<close> and the current line number leaves it, and the
  others are untouched. That prefix has at most 500 characters and is the line itself
  when the line has at most 500.
\<close>

theorem parse_line_truncates_unmarked_line:
  assumes "\<not> sublist ''TALOSDATA'' line" and "\<not> sublist ''TalosResult'' line"
    and "i < length (parsers b)"
  shows "parsers (snd (parse_line b line)) ! i =
           (if is_complete (parsers b ! i)
               \<or> (\<exists>j<i. raised (parsers b ! j) (take 500 line) (lineno b) \<noteq> None)
            then parsers b ! i
            else invoke (parsers b ! i) (take 500 line) (lineno b))
         \<and> length (take 500 line) \<le> 500
         \<and> prefix (take 500 line) line
         \<and> (length line \<le> 500 \<longrightarrow> take 500 line = line)"
proof -
  from assms(1,2) have d: "delivered line = take 500 line"
    by (simp add: delivered_def MAX_LINE_LENGTH_def)
  have "parsers (snd (parse_line b line)) ! i =
           (if is_complete (parsers b ! i)
               \<or> (\<exists>j<i. raised (parsers b ! j) (take 500 line) (lineno b) \<noteq> None)
            then parsers b ! i
            else invoke (parsers b ! i) (take 500 line) (lineno b))"
    using parse_line_parsers_nth [OF assms(3), of line] unfolding d .
  moreover have "prefix (take 500 line) line"
    by (rule take_is_prefix)
  ultimately show ?thesis
    by simp
qed

theorem parse_line_truncates_unmarked_line_witness:
  "length (replicate 600 CHR ''x'') = 600
   \<and> \<not> sublist ''TALOSDATA'' (replicate 600 CHR ''x'')
   \<and> \<not> sublist ''TalosResult'' (replicate 600 CHR ''x'')
   \<and> sp_state (parsers (snd (parse_line (BuildbotJobArtifactBuilder demo_module None)
                                  (replicate 600 CHR ''x''))) ! 0)
       = \<lparr>received = [(replicate 500 CHR ''x'', 0)], checks_errors = True\<rparr>"
  using parse_line_truncates_unmarked_line
          [OF demo_long_line_unmarked, of 0 "BuildbotJobArtifactBuilder demo_module None"]
  by (simp add: demo_job_builder demo_long_line_unmarked demo_long_line_not_bad
        demo_parser_def is_complete_def invoke_def)

lemma demo_marked_line:
  "sublist ''TalosResult'' (replicate 600 CHR ''x'' @ ''TalosResult'')"
  "replicate 600 CHR ''x'' @ ''TalosResult'' \<noteq> ''bad''"
proof -
  have "replicate 600 CHR ''x'' @ ''TalosResult'' = replicate 600 CHR ''x'' @ ''TalosResult'' @ []"
    by simp
  then show "sublist ''TalosResult'' (replicate 600 CHR ''x'' @ ''TalosResult'')"
    unfolding sublist_def by blast
  show "replicate 600 CHR ''x'' @ ''TalosResult'' \<noteq> ''bad''"
  proof
    assume "replicate 600 CHR ''x'' @ ''TalosResult'' = ''bad''"
    then have "length (replicate 600 CHR ''x'' @ ''TalosResult'') = length ''bad''"
      by (rule arg_cong)
    then show False
      by simp
  qed
qed

text \<open>
  C2. A line that contains \<^verbatim>\<open>TALOSDATA\<close> or \<^verbatim>\<open>TalosResult\<close> anywhere, also beyond
  its 500th character, reaches the sub-parsers as it is, whatever its length: every
  sub-parser that is not complete and that the loop gets to is left as one call of its
  \<^verbatim>\<open>parse_line\<close> on the whole line and the current line number leaves it, and the
  others are untouched.
\<close>

theorem parse_line_keeps_marked_line:
  assumes "sublist ''TALOSDATA'' line \<or> sublist ''TalosResult'' line"
    and "i < length (parsers b)"
  shows "parsers (snd (parse_line b line)) ! i =
           (if is_complete (parsers b ! i)
               \<or> (\<exists>j<i. raised (parsers b ! j) line (lineno b) \<noteq> None)
            then parsers b ! i
            else invoke (parsers b ! i) line (lineno b))"
proof -
  from assms(1) have d: "delivered line = line"
    by (auto simp: delivered_def)
  show ?thesis
    using parse_line_parsers_nth [OF assms(2), of line] unfolding d .
qed

theorem parse_line_keeps_marked_line_witness:
  "length (replicate 600 CHR ''x'' @ ''TalosResult'') = 611
   \<and> sublist ''TalosResult'' (replicate 600 CHR ''x'' @ ''TalosResult'')
   \<and> sp_state (parsers (snd (parse_line (BuildbotJobArtifactBuilder demo_module None)
                                  (replicate 600 CHR ''x'' @ ''TalosResult''))) ! 0)
       = \<lparr>received = [(replicate 600 CHR ''x'' @ ''TalosResult'', 0)], checks_errors = True\<rparr>"
  using parse_line_keeps_marked_line
          [OF disjI2, OF demo_marked_line(1), of 0 "BuildbotJobArtifactBuilder demo_module None"]
  by (simp add: demo_job_builder demo_marked_line demo_parser_def is_complete_def invoke_def)

section \<open>The assembly loop\<close>

lemma find_append_list:
  "find P (xs @ ys) = (case find P xs of None \<Rightarrow> find P ys | Some x \<Rightarrow> Some x)"
  by (induction xs) simp_all

lemma store_artifacts_Cons:
  "store_artifacts (p # ps) art =
     (if isl (the_artifact p) then (Some (projl (the_artifact p)), art)
      else store_artifacts ps (art(sp_name p \<mapsto> ParserArtifact (projr (the_artifact p)))))"
  by (simp add: the_artifact_def split: sum.splits)

lemma store_artifacts_fst:
  "fst (store_artifacts ps art) =
     (case find (\<lambda>p. isl (the_artifact p)) ps of
        None \<Rightarrow> None
      | Some p \<Rightarrow> Some (projl (the_artifact p)))"
  by (induction ps arbitrary: art)
     (simp_all add: store_artifacts_Cons del: store_artifacts.simps(2))

lemma store_artifacts_snd:
  "snd (store_artifacts ps art) k =
     (case find (\<lambda>p. sp_name p = k) (rev (stored_prefix ps)) of
        None \<Rightarrow> art k
      | Some p \<Rightarrow> Some (ParserArtifact (projr (the_artifact p))))"
proof (induction ps arbitrary: art)
  case Nil
  show ?case by (simp add: stored_prefix_def)
next
  case (Cons p ps)
  show ?case
  proof (cases "isl (the_artifact p)")
    case True
    then show ?thesis
      by (simp add: store_artifacts_Cons stored_prefix_def del: store_artifacts.simps(2))
  next
    case False
    then have sp: "stored_prefix (p # ps) = p # stored_prefix ps"
      by (simp add: stored_prefix_def)
    show ?thesis
      using False
      by (simp add: store_artifacts_Cons Cons.IH sp find_append_list
            del: store_artifacts.simps(2) split: option.splits)
  qed
qed

lemma store_artifacts_twice:
  "store_artifacts ps (snd (store_artifacts ps art)) = store_artifacts ps art"
proof (rule prod_eqI)
  show "fst (store_artifacts ps (snd (store_artifacts ps art))) = fst (store_artifacts ps art)"
    by (simp add: store_artifacts_fst)
  show "snd (store_artifacts ps (snd (store_artifacts ps art))) = snd (store_artifacts ps art)"
    by (rule ext) (simp add: store_artifacts_snd split: option.splits)
qed

lemma get_artifact_eq:
  "get_artifact b =
     ((case fst (store_artifacts (parsers b) (artifact b)) of
         Some e \<Rightarrow> Inl e
       | None \<Rightarrow> Inr (snd (store_artifacts (parsers b) (artifact b)))),
      b\<lparr>artifact := snd (store_artifacts (parsers b) (artifact b))\<rparr>)"
  by (simp add: get_artifact_def split: prod.splits option.splits)

section \<open>Sequences of calls\<close>

lemma parse_line_fields:
  "name (snd (parse_line b line)) = name b"
  "artifact (snd (parse_line b line)) = artifact b"
  "length (parsers (snd (parse_line b line))) = length (parsers b)"
  "lineno (snd (parse_line b line)) =
     (if fst (parse_line b line) = None then lineno b + 1 else lineno b)"
  by (simp_all add: parse_line_eq length_dispatch)

lemma parse_line_frame_eq:
  "snd (parse_line b line) =
     b\<lparr>parsers := parsers (snd (parse_line b line)),
       lineno := lineno (snd (parse_line b line))\<rparr>"
  by (simp add: parse_line_eq)

lemma get_artifact_fields:
  "name (snd (get_artifact b)) = name b"
  "parsers (snd (get_artifact b)) = parsers b"
  "lineno (snd (get_artifact b)) = lineno b"
  by (simp_all add: get_artifact_eq)

lemma same_object_refl: "same_object p p"
  by (simp add: same_object_def)

lemma same_object_invoke: "same_object p (invoke p line n)"
  by (simp add: same_object_def invoke_def)

lemma same_object_trans: "same_object p q \<Longrightarrow> same_object q r \<Longrightarrow> same_object p r"
  unfolding same_object_def
proof -
  assume q: "q = p\<lparr>sp_state := sp_state q\<rparr>" and r: "r = q\<lparr>sp_state := sp_state r\<rparr>"
  have "r = (p\<lparr>sp_state := sp_state q\<rparr>)\<lparr>sp_state := sp_state r\<rparr>"
    using q r by simp
  then show "r = p\<lparr>sp_state := sp_state r\<rparr>"
    by simp
qed

lemma parse_line_same_object:
  "i < length (parsers b) \<Longrightarrow> same_object (parsers b ! i) (parsers (snd (parse_line b line)) ! i)"
  by (simp add: parse_line_parsers_nth same_object_refl same_object_invoke)

lemma parse_line_complete:
  "i < length (parsers b) \<Longrightarrow> is_complete (parsers b ! i) \<Longrightarrow>
   parsers (snd (parse_line b line)) ! i = parsers b ! i"
  by (simp add: parse_line_parsers_nth)

lemma perform_length: "length (parsers (perform b c)) = length (parsers b)"
  by (cases c) (simp_all add: parse_line_fields get_artifact_fields)

lemma perform_same_object:
  "i < length (parsers b) \<Longrightarrow> same_object (parsers b ! i) (parsers (perform b c) ! i)"
  by (cases c) (simp_all add: parse_line_same_object get_artifact_fields same_object_refl)

lemma perform_complete:
  "i < length (parsers b) \<Longrightarrow> is_complete (parsers b ! i) \<Longrightarrow>
   parsers (perform b c) ! i = parsers b ! i"
  by (cases c) (simp_all add: parse_line_complete get_artifact_fields)

lemma perform_lineno:
  "lineno (perform b c) = lineno b + (if parse_returned b c then 1 else 0)"
  by (cases c) (simp_all add: parse_line_fields get_artifact_fields)

lemma perform_name: "name (perform b c) = name b"
  by (cases c) (simp_all add: parse_line_fields get_artifact_fields)

lemma run_length: "length (parsers (run b cs)) = length (parsers b)"
  by (induction cs arbitrary: b) (simp_all add: perform_length)

lemma run_name: "name (run b cs) = name b"
  by (induction cs arbitrary: b) (simp_all add: perform_name)

lemma run_lineno: "lineno (run b cs) = lineno b + int (returned_parses b cs)"
  by (induction cs arbitrary: b) (simp_all add: perform_lineno)

lemma run_same_object:
  "i < length (parsers b) \<Longrightarrow> same_object (parsers b ! i) (parsers (run b cs) ! i)"
proof (induction cs arbitrary: b)
  case Nil
  show ?case by (simp add: same_object_refl)
next
  case (Cons c cs)
  from Cons.prems have "i < length (parsers (perform b c))"
    by (simp add: perform_length)
  then have "same_object (parsers (perform b c) ! i) (parsers (run (perform b c) cs) ! i)"
    by (rule Cons.IH)
  with perform_same_object [OF Cons.prems, of c] show ?case
    by (simp add: same_object_trans)
qed

lemma run_complete:
  "i < length (parsers b) \<Longrightarrow> is_complete (parsers b ! i) \<Longrightarrow>
   parsers (run b cs) ! i = parsers b ! i"
proof (induction cs arbitrary: b)
  case Nil
  show ?case by simp
next
  case (Cons c cs)
  have eq: "parsers (perform b c) ! i = parsers b ! i"
    using Cons.prems by (rule perform_complete)
  have "parsers (run (perform b c) cs) ! i = parsers (perform b c) ! i"
    using Cons.prems by (intro Cons.IH) (simp_all add: perform_length eq)
  with eq show ?case
    by simp
qed

lemma run_append: "run b (cs @ ds) = run (run b cs) ds"
  by (induction cs arbitrary: b) simp_all

lemma returned_parses_le: "returned_parses b cs \<le> length (filter is_parse cs)"
proof (induction cs arbitrary: b)
  case Nil
  show ?case by simp
next
  case (Cons c cs)
  from Cons.IH [of "perform b c"] show ?case
    by (cases c) simp_all
qed

lemma never_raises_same_object:
  "same_object p q \<Longrightarrow> never_raises p \<Longrightarrow> never_raises q"
proof -
  assume "same_object p q" and nr: "never_raises p"
  then have "sp_parse_line q = sp_parse_line (p\<lparr>sp_state := sp_state q\<rparr>)"
    by (simp add: same_object_def)
  then have "sp_parse_line q = sp_parse_line p"
    by simp
  with nr show "never_raises q"
    by (simp add: never_raises_def)
qed

lemma never_raises_returns:
  assumes "\<forall>i<length (parsers b). never_raises (parsers b ! i)"
  shows "fst (parse_line b line) = None"
proof -
  have "\<forall>i<length (parsers b). raised (parsers b ! i) (delivered line) (lineno b) = None"
    using assms by (simp add: raised_def never_raises_def)
  then show ?thesis
    by (simp add: parse_line_eq dispatch_returns_iff)
qed

lemma never_raises_perform:
  assumes "\<forall>i<length (parsers b). never_raises (parsers b ! i)"
  shows "\<forall>i<length (parsers (perform b c)). never_raises (parsers (perform b c) ! i)"
proof (intro allI impI)
  fix i
  assume "i < length (parsers (perform b c))"
  then have i: "i < length (parsers b)"
    by (simp add: perform_length)
  with assms have "never_raises (parsers b ! i)"
    by simp
  with perform_same_object [OF i, of c] show "never_raises (parsers (perform b c) ! i)"
    by (rule never_raises_same_object)
qed

lemma never_raises_count:
  "\<forall>i<length (parsers b). never_raises (parsers b ! i) \<Longrightarrow>
   returned_parses b cs = length (filter is_parse cs)"
proof (induction cs arbitrary: b)
  case Nil
  show ?case by simp
next
  case (Cons c cs)
  have "returned_parses (perform b c) cs = length (filter is_parse cs)"
    using Cons.prems by (intro Cons.IH never_raises_perform)
  moreover have "parse_returned b c = is_parse c"
    using never_raises_returns [OF Cons.prems] by (cases c) simp_all
  ultimately show ?case
    by simp
qed

section \<open>The line counter and completed sub-parsers\<close>

lemma constructed_lineno:
  "lineno (ArtifactBuilderBase url) = 0"
  "lineno (BuildbotJobArtifactBuilder M url) = 0"
  "lineno (BuildbotLogViewArtifactBuilder M url ce) = 0"
  "lineno (BuildbotPerformanceDataArtifactBuilder M url ce) = 0"
  by (simp_all add: ArtifactBuilderBase_def BuildbotJobArtifactBuilder_def
        BuildbotLogViewArtifactBuilder_def BuildbotPerformanceDataArtifactBuilder_def)

lemma demo_log_view_builder:
  "parsers (BuildbotLogViewArtifactBuilder demo_module url ce) =
     [demo_parser ''header'' True, demo_parser ''step_data'' ce]"
  "lineno (BuildbotLogViewArtifactBuilder demo_module url ce) = 0"
  by (simp_all add: BuildbotLogViewArtifactBuilder_def ArtifactBuilderBase_def demo_module_def)

lemma demo_performance_builder:
  "parsers (BuildbotPerformanceDataArtifactBuilder demo_module url ce) =
     [demo_parser ''talos_data'' False]"
  "lineno (BuildbotPerformanceDataArtifactBuilder demo_module url ce) = 0"
  by (simp_all add: BuildbotPerformanceDataArtifactBuilder_def ArtifactBuilderBase_def
        demo_module_def)

lemma demo_bad_delivered: "delivered ''bad'' = ''bad''" "delivered ''a'' = ''a''"
  by (simp_all add: delivered_def MAX_LINE_LENGTH_def)

lemma demo_parser_raised:
  "raised (demo_parser nm c) line n = (if c \<and> line = ''bad'' then Some (Exception ''bad line'') else None)"
  by (simp add: raised_def is_complete_def demo_parser_def)

lemma demo_parser_invoke:
  "sp_state (invoke (demo_parser nm c) line n) =
     (if c \<and> line = ''bad'' then \<lparr>received = [], checks_errors = c\<rparr>
      else \<lparr>received = [(line, n)], checks_errors = c\<rparr>)"
  by (simp add: invoke_def demo_parser_def)

lemma demo_parser_incomplete: "\<not> is_complete (demo_parser nm c)"
  by (simp add: is_complete_def demo_parser_def)

text \<open>
  C4, as the code has it. The line counter is 0 after construction, and after any
  sequence of calls it has grown by the number of \<^verbatim>\<open>parse_line\<close> calls that returned:
  a call in which a sub-parser raises leaves it as it was, a \<^verbatim>\<open>get_artifact\<close> call
  leaves it as it was, and nothing resets or lowers it. When no sub-parser ever raises,
  that number is the number of \<^verbatim>\<open>parse_line\<close> calls made, whatever the lines and
  whichever sub-parsers are complete.
\<close>

theorem lineno_counts_returned_parse_lines:
  "lineno (run b cs) = lineno b + int (returned_parses b cs)
   \<and> returned_parses b cs \<le> length (filter is_parse cs)
   \<and> ((\<forall>p\<in>set (parsers b). never_raises p) \<longrightarrow>
        returned_parses b cs = length (filter is_parse cs))
   \<and> (b \<in> insert (ArtifactBuilderBase url) (variants M url check_errors) \<longrightarrow> lineno b = 0)"
proof (intro conjI impI)
  show "lineno (run b cs) = lineno b + int (returned_parses b cs)"
    by (rule run_lineno)
  show "returned_parses b cs \<le> length (filter is_parse cs)"
    by (rule returned_parses_le)
  show "returned_parses b cs = length (filter is_parse cs)"
    if "\<forall>p\<in>set (parsers b). never_raises p"
    using that by (intro never_raises_count) simp
  show "lineno b = 0"
    if "b \<in> insert (ArtifactBuilderBase url) (variants M url check_errors)"
    using that by (auto simp: variants_def constructed_lineno)
qed

theorem lineno_counts_returned_parse_lines_witness:
  "lineno (run (BuildbotPerformanceDataArtifactBuilder demo_module None True)
             [ParseLine ''a'', GetArtifact, ParseLine ''bad'']) = 2
   \<and> returned_parses (BuildbotPerformanceDataArtifactBuilder demo_module None True)
             [ParseLine ''a'', GetArtifact, ParseLine ''bad''] = 2
   \<and> never_raises (demo_parser ''talos_data'' False)"
  using lineno_counts_returned_parse_lines
          [of "BuildbotPerformanceDataArtifactBuilder demo_module None True"
              "[ParseLine ''a'', GetArtifact, ParseLine ''bad'']" None demo_module True]
  by (simp add: demo_performance_builder variants_def never_raises_def demo_parser_def)

text \<open>
  C4 as stated fails when a sub-parser raises: after one call of \<^verbatim>\<open>parse_line\<close> that
  raised, the counter is still 0.
\<close>

theorem lineno_after_raising_call_counterexample:
  "fst (parse_line (BuildbotJobArtifactBuilder demo_module None) ''bad'')
     = Some (Exception ''bad line'')
   \<and> lineno (run (BuildbotJobArtifactBuilder demo_module None) [ParseLine ''bad''])
     \<noteq> int (length [ParseLine ''bad''])"
  by (simp add: parse_line_eq demo_job_builder demo_bad_delivered dispatch_Cons demo_parser_raised
        demo_parser_incomplete del: dispatch.simps(2))

lemma demo_parser_state:
  "sp_state (demo_parser nm c) = \<lparr>received = [], checks_errors = c\<rparr>"
  by (simp add: demo_parser_def)

lemma demo_raising_call:
  "fst (parse_line (BuildbotLogViewArtifactBuilder demo_module None False) ''bad'')
     = Some (Exception ''bad line'')"
  by (simp add: parse_line_eq demo_log_view_builder demo_bad_delivered dispatch_Cons
        demo_parser_raised demo_parser_incomplete del: dispatch.simps(2))

text \<open>
  C5, as the code has it. A sub-parser whose \<^verbatim>\<open>complete\<close> flag is true is never called
  again by \<^verbatim>\<open>parse_line\<close>: through any further sequence of calls the object stays as
  it is, so its flag stays true and its artifact stays the same (no assumption on the
  flag is needed, since nothing the builder does can change it). A sub-parser whose flag
  is false is called exactly once in a call of \<^verbatim>\<open>parse_line\<close>, in the order of the list,
  unless a sub-parser before it raised in that call: then it is not called. In a call
  that returns, every sub-parser whose flag is false has been called exactly once.
\<close>

theorem complete_parsers_are_skipped:
  assumes "i < length (parsers b)"
  shows "(is_complete (parsers b ! i) \<longrightarrow>
            parsers (run b cs) ! i = parsers b ! i
            \<and> is_complete (parsers (run b cs) ! i)
            \<and> the_artifact (parsers (run b cs) ! i) = the_artifact (parsers b ! i))
         \<and> (\<not> is_complete (parsers b ! i) \<longrightarrow>
              parsers (snd (parse_line b line)) ! i =
                (if \<exists>j<i. raised (parsers b ! j) (delivered line) (lineno b) \<noteq> None
                 then parsers b ! i
                 else invoke (parsers b ! i) (delivered line) (lineno b)))
         \<and> (\<not> is_complete (parsers b ! i) \<and> fst (parse_line b line) = None \<longrightarrow>
              parsers (snd (parse_line b line)) ! i =
                invoke (parsers b ! i) (delivered line) (lineno b))"
proof (intro conjI impI)
  assume c: "is_complete (parsers b ! i)"
  show eq: "parsers (run b cs) ! i = parsers b ! i"
    using assms c by (rule run_complete)
  from eq c show "is_complete (parsers (run b cs) ! i)"
    by simp
  from eq show "the_artifact (parsers (run b cs) ! i) = the_artifact (parsers b ! i)"
    by simp
next
  assume "\<not> is_complete (parsers b ! i)"
  then show "parsers (snd (parse_line b line)) ! i =
                (if \<exists>j<i. raised (parsers b ! j) (delivered line) (lineno b) \<noteq> None
                 then parsers b ! i
                 else invoke (parsers b ! i) (delivered line) (lineno b))"
    using parse_line_parsers_nth [OF assms, of line] by simp
next
  assume a: "\<not> is_complete (parsers b ! i) \<and> fst (parse_line b line) = None"
  then have "\<forall>j<length (parsers b). raised (parsers b ! j) (delivered line) (lineno b) = None"
    by (simp add: parse_line_eq dispatch_returns_iff)
  with assms have "\<not> (\<exists>j<i. raised (parsers b ! j) (delivered line) (lineno b) \<noteq> None)"
    by auto
  with a show "parsers (snd (parse_line b line)) ! i =
                invoke (parsers b ! i) (delivered line) (lineno b)"
    using parse_line_parsers_nth [OF assms, of line] by auto
qed

theorem complete_parsers_are_skipped_witness:
  "is_complete (parsers (run (BuildbotLogViewArtifactBuilder demo_module None False)
                           [ParseLine ''END'']) ! 1)
   \<and> sp_state (parsers (run (BuildbotLogViewArtifactBuilder demo_module None False)
                           [ParseLine ''END'', ParseLine ''a'', GetArtifact, ParseLine ''bad'']) ! 1)
       = \<lparr>received = [(''END'', 0)], checks_errors = False\<rparr>
   \<and> sp_state (parsers (snd (parse_line (BuildbotLogViewArtifactBuilder demo_module None False)
                                  ''a'')) ! 1)
       = \<lparr>received = [(''a'', 0)], checks_errors = False\<rparr>"
proof -
  let ?b = "BuildbotLogViewArtifactBuilder demo_module None False"
  let ?b1 = "run ?b [ParseLine ''END'']"
  have d: "delivered ''END'' = ''END''"
    by (simp add: delivered_def MAX_LINE_LENGTH_def)
  have ret: "fst (parse_line ?b ''a'') = None" "fst (parse_line ?b ''END'') = None"
    by (simp_all add: parse_line_eq demo_log_view_builder demo_bad_delivered d dispatch_Cons
          demo_parser_raised demo_parser_incomplete del: dispatch.simps(2))
  have len: "1 < length (parsers ?b)" "1 < length (parsers ?b1)"
    by (simp_all add: parse_line_fields demo_log_view_builder)
  have st: "parsers ?b ! 1 = demo_parser ''step_data'' False"
    "parsers ?b ! Suc 0 = demo_parser ''step_data'' False"
    by (simp_all add: demo_log_view_builder)
  have first: "parsers ?b1 ! 1 = invoke (demo_parser ''step_data'' False) ''END'' 0"
    using complete_parsers_are_skipped [OF len(1), of "[]" "''END''"] ret
    by (simp add: st demo_parser_incomplete demo_parser_raised d demo_log_view_builder)
  then have c: "is_complete (parsers ?b1 ! 1)"
    by (simp add: is_complete_def invoke_def demo_parser_def)
  have "parsers (run ?b1 [ParseLine ''a'', GetArtifact, ParseLine ''bad'']) ! 1 = parsers ?b1 ! 1"
    using complete_parsers_are_skipped
            [OF len(2), of "[ParseLine ''a'', GetArtifact, ParseLine ''bad'']" "''a''"] c
    by simp
  then have later: "sp_state (parsers (run ?b [ParseLine ''END'', ParseLine ''a'', GetArtifact,
                                               ParseLine ''bad'']) ! 1)
                     = \<lparr>received = [(''END'', 0)], checks_errors = False\<rparr>"
    using first by (simp add: demo_parser_invoke)
  have "sp_state (parsers (snd (parse_line ?b ''a'')) ! 1)
          = \<lparr>received = [(''a'', 0)], checks_errors = False\<rparr>"
    using complete_parsers_are_skipped [OF len(1), of "[]" "''a''"] ret
    by (simp add: st demo_parser_incomplete demo_parser_raised demo_bad_delivered
          demo_log_view_builder demo_parser_invoke)
  with c later show ?thesis
    by simp
qed

text \<open>
  C5 as stated fails in a call where a sub-parser raises: the step parser of a log-view
  builder is not complete, yet the call in which the header parser raises before it
  does not reach it, and the line it would have kept is not kept.
\<close>

theorem uncompleted_parser_not_invoked_counterexample:
  "\<not> is_complete (parsers (BuildbotLogViewArtifactBuilder demo_module None False) ! 1)
   \<and> fst (parse_line (BuildbotLogViewArtifactBuilder demo_module None False) ''bad'')
       = Some (Exception ''bad line'')
   \<and> received (sp_state (parsers (snd (parse_line
         (BuildbotLogViewArtifactBuilder demo_module None False) ''bad'')) ! 1)) = []
   \<and> received (sp_state (invoke
         (parsers (BuildbotLogViewArtifactBuilder demo_module None False) ! 1) ''bad'' 0))
       = [(''bad'', 0)]"
  by (simp add: demo_raising_call parse_line_parsers_nth demo_log_view_builder
        demo_parser_incomplete demo_parser_raised demo_parser_invoke demo_parser_state
        demo_bad_delivered)

section \<open>Frame and error propagation of \<open>parse_line\<close>\<close>

text \<open>
  C9. A call of \<^verbatim>\<open>parse_line\<close> hands back no value (its only results are returning
  and raising) and changes nothing of the builder but \<^verbatim>\<open>lineno\<close> and the attributes of
  the sub-parsers: the name and the artifact dictionary, so its \<^verbatim>\<open>logurl\<close> entry, are as
  before; the list has the same objects in the same places; the objects that were
  complete are as before; and the counter is one more when the call returns.
\<close>

theorem parse_line_frame:
  "snd (parse_line b line) =
     b\<lparr>parsers := parsers (snd (parse_line b line)),
       lineno := lineno (snd (parse_line b line))\<rparr>
   \<and> name (snd (parse_line b line)) = name b
   \<and> artifact (snd (parse_line b line)) ''logurl'' = artifact b ''logurl''
   \<and> length (parsers (snd (parse_line b line))) = length (parsers b)
   \<and> (\<forall>i<length (parsers b).
         same_object (parsers b ! i) (parsers (snd (parse_line b line)) ! i)
         \<and> (is_complete (parsers b ! i) \<longrightarrow>
              parsers (snd (parse_line b line)) ! i = parsers b ! i))
   \<and> lineno (snd (parse_line b line)) =
        (if fst (parse_line b line) = None then lineno b + 1 else lineno b)"
proof (intro conjI allI impI)
  show "snd (parse_line b line) =
     b\<lparr>parsers := parsers (snd (parse_line b line)),
       lineno := lineno (snd (parse_line b line))\<rparr>"
    by (rule parse_line_frame_eq)
  show "name (snd (parse_line b line)) = name b"
    by (rule parse_line_fields)
  show "artifact (snd (parse_line b line)) ''logurl'' = artifact b ''logurl''"
    by (simp add: parse_line_fields)
  show "length (parsers (snd (parse_line b line))) = length (parsers b)"
    by (rule parse_line_fields)
  show "lineno (snd (parse_line b line)) =
        (if fst (parse_line b line) = None then lineno b + 1 else lineno b)"
    by (rule parse_line_fields)
next
  fix i
  assume i: "i < length (parsers b)"
  then show "same_object (parsers b ! i) (parsers (snd (parse_line b line)) ! i)"
    by (rule parse_line_same_object)
  show "parsers (snd (parse_line b line)) ! i = parsers b ! i"
    if "is_complete (parsers b ! i)"
    using i that by (rule parse_line_complete)
qed

theorem parse_line_frame_witness:
  "fst (parse_line (BuildbotLogViewArtifactBuilder demo_module (Some ''http://x/log.txt'') False)
         ''a'') = None
   \<and> name (snd (parse_line
         (BuildbotLogViewArtifactBuilder demo_module (Some ''http://x/log.txt'') False) ''a''))
       = ''Structured Log''
   \<and> artifact (snd (parse_line
         (BuildbotLogViewArtifactBuilder demo_module (Some ''http://x/log.txt'') False) ''a''))
         ''logurl''
       = Some (LogUrl (Some ''http://x/log.txt''))
   \<and> length (parsers (snd (parse_line
         (BuildbotLogViewArtifactBuilder demo_module (Some ''http://x/log.txt'') False) ''a'')))
       = 2
   \<and> lineno (snd (parse_line
         (BuildbotLogViewArtifactBuilder demo_module (Some ''http://x/log.txt'') False) ''a''))
       = 1"
proof -
  let ?b = "BuildbotLogViewArtifactBuilder demo_module (Some ''http://x/log.txt'') False"
  have ret: "fst (parse_line ?b ''a'') = None"
    by (simp add: parse_line_eq demo_log_view_builder demo_bad_delivered dispatch_Cons
          demo_parser_raised demo_parser_incomplete del: dispatch.simps(2))
  have b: "name ?b = ''Structured Log''"
    "artifact ?b ''logurl'' = Some (LogUrl (Some ''http://x/log.txt''))"
    by (simp_all add: BuildbotLogViewArtifactBuilder_def ArtifactBuilderBase_def)
  from parse_line_frame [of ?b "''a''"] ret b show ?thesis
    by (simp add: demo_log_view_builder)
qed

text \<open>
  C10. \<^verbatim>\<open>parse_line\<close> raises exactly when a sub-parser that is not complete raises on
  the line, and it raises what the first such sub-parser in the list raised, as it is.
  The call stops there: the sub-parsers after the raising one are untouched, and the
  counter is not incremented, so that after a call that raised the counter is the number
  of calls that returned before it.
\<close>

theorem parse_line_propagates_error:
  "(fst (parse_line b line) = Some e \<longleftrightarrow>
      (\<exists>i<length (parsers b).
          raised (parsers b ! i) (delivered line) (lineno b) = Some e
          \<and> (\<forall>j<i. raised (parsers b ! j) (delivered line) (lineno b) = None)))
   \<and> (\<forall>i k. i < k \<and> k < length (parsers b)
          \<and> raised (parsers b ! i) (delivered line) (lineno b) \<noteq> None \<longrightarrow>
          parsers (snd (parse_line b line)) ! k = parsers b ! k)
   \<and> (fst (parse_line b line) \<noteq> None \<longrightarrow>
        lineno (snd (parse_line b line)) = lineno b)
   \<and> (fst (parse_line (run b cs) line) \<noteq> None \<longrightarrow>
        lineno (run b (cs @ [ParseLine line])) = lineno b + int (returned_parses b cs))"
proof (intro conjI allI impI)
  show "fst (parse_line b line) = Some e \<longleftrightarrow>
      (\<exists>i<length (parsers b).
          raised (parsers b ! i) (delivered line) (lineno b) = Some e
          \<and> (\<forall>j<i. raised (parsers b ! j) (delivered line) (lineno b) = None))"
    by (simp add: parse_line_eq dispatch_raises_iff)
next
  fix i k
  assume a: "i < k \<and> k < length (parsers b)
          \<and> raised (parsers b ! i) (delivered line) (lineno b) \<noteq> None"
  then have "\<exists>j<k. raised (parsers b ! j) (delivered line) (lineno b) \<noteq> None"
    by blast
  with a show "parsers (snd (parse_line b line)) ! k = parsers b ! k"
    using parse_line_parsers_nth [of k b line] by simp
next
  assume "fst (parse_line b line) \<noteq> None"
  then show "lineno (snd (parse_line b line)) = lineno b"
    by (simp add: parse_line_fields)
next
  assume "fst (parse_line (run b cs) line) \<noteq> None"
  then have "lineno (snd (parse_line (run b cs) line)) = lineno (run b cs)"
    by (simp add: parse_line_fields)
  then show "lineno (run b (cs @ [ParseLine line])) = lineno b + int (returned_parses b cs)"
    by (simp add: run_append run_lineno)
qed

theorem parse_line_propagates_error_witness:
  "raised (parsers (BuildbotLogViewArtifactBuilder demo_module None False) ! 0) ''bad'' 0
     = Some (Exception ''bad line'')
   \<and> fst (parse_line (BuildbotLogViewArtifactBuilder demo_module None False) ''bad'')
     = Some (Exception ''bad line'')
   \<and> parsers (snd (parse_line (BuildbotLogViewArtifactBuilder demo_module None False) ''bad'')) ! 1
     = demo_parser ''step_data'' False
   \<and> lineno (snd (parse_line (BuildbotLogViewArtifactBuilder demo_module None False) ''bad'')) = 0
   \<and> lineno (run (BuildbotLogViewArtifactBuilder demo_module None False)
               ([ParseLine ''a''] @ [ParseLine ''bad''])) = 1"
proof -
  let ?b = "BuildbotLogViewArtifactBuilder demo_module None False"
  have r0: "raised (parsers ?b ! 0) (delivered ''bad'') (lineno ?b) = Some (Exception ''bad line'')"
    by (simp add: demo_log_view_builder demo_bad_delivered demo_parser_raised)
  have ra: "fst (parse_line ?b ''a'') = None"
    by (simp add: parse_line_eq demo_log_view_builder demo_bad_delivered dispatch_Cons
          demo_parser_raised demo_parser_incomplete del: dispatch.simps(2))
  note inst = parse_line_propagates_error
                [of ?b "''bad''" "Exception ''bad line''" "[ParseLine ''a'']"]
  have "\<exists>i<length (parsers ?b).
          raised (parsers ?b ! i) (delivered ''bad'') (lineno ?b) = Some (Exception ''bad line'')
          \<and> (\<forall>j<i. raised (parsers ?b ! j) (delivered ''bad'') (lineno ?b) = None)"
    using r0 by (intro exI [of _ 0]) (simp add: demo_log_view_builder)
  with inst [THEN conjunct1]
  have f: "fst (parse_line ?b ''bad'') = Some (Exception ''bad line'')"
    by (rule iffD2)
  have "0 < (1::nat) \<and> 1 < length (parsers ?b)
          \<and> raised (parsers ?b ! 0) (delivered ''bad'') (lineno ?b) \<noteq> None"
    using r0 by (simp add: demo_log_view_builder)
  with inst [THEN conjunct2, THEN conjunct1, rule_format, of 0 1]
  have untouched: "parsers (snd (parse_line ?b ''bad'')) ! 1 = parsers ?b ! 1"
    by simp
  from inst [THEN conjunct2, THEN conjunct2, THEN conjunct1] f
  have l: "lineno (snd (parse_line ?b ''bad'')) = 0"
    by (simp add: demo_log_view_builder)
  have "parsers (run ?b [ParseLine ''a'']) =
          [invoke (demo_parser ''header'' True) ''a'' 0, invoke (demo_parser ''step_data'' False) ''a'' 0]"
    by (simp add: parse_line_eq demo_log_view_builder demo_bad_delivered dispatch_Cons
          demo_parser_raised demo_parser_incomplete del: dispatch.simps(2))
  then have "fst (parse_line (run ?b [ParseLine ''a'']) ''bad'') = Some (Exception ''bad line'')"
    by (simp add: parse_line_eq demo_bad_delivered dispatch_Cons raised_def is_complete_def
          invoke_def demo_parser_def del: dispatch.simps(2) run.simps)
  with inst [THEN conjunct2, THEN conjunct2, THEN conjunct2] ra
  have "lineno (run ?b ([ParseLine ''a''] @ [ParseLine ''bad''])) = 1"
    by (simp add: demo_log_view_builder del: run.simps)
  with r0 f untouched l show ?thesis
    by (simp add: demo_log_view_builder demo_bad_delivered)
qed

section \<open>The artifact dictionary\<close>

lemma same_object_name: "same_object p q \<Longrightarrow> sp_name q = sp_name p"
proof -
  assume "same_object p q"
  then have "sp_name q = sp_name (p\<lparr>sp_state := sp_state q\<rparr>)"
    by (simp add: same_object_def)
  then show ?thesis
    by simp
qed

lemma perform_names: "map sp_name (parsers (perform b c)) = map sp_name (parsers b)"
proof (rule nth_equalityI)
  show "length (map sp_name (parsers (perform b c))) = length (map sp_name (parsers b))"
    by (simp add: perform_length)
next
  fix i
  assume "i < length (map sp_name (parsers (perform b c)))"
  then have i: "i < length (parsers b)"
    by (simp add: perform_length)
  from perform_same_object [OF i, of c]
  have "sp_name (parsers (perform b c) ! i) = sp_name (parsers b ! i)"
    by (rule same_object_name)
  with i show "map sp_name (parsers (perform b c)) ! i = map sp_name (parsers b) ! i"
    by (simp add: perform_length)
qed

lemma run_names: "map sp_name (parsers (run b cs)) = map sp_name (parsers b)"
  by (induction cs arbitrary: b) (simp_all add: perform_names)

lemma names_set: "sp_name ` set ps = set (map sp_name ps)"
  by simp

lemma find_name_None: "find (\<lambda>p. sp_name p = k) ps = None \<longleftrightarrow> k \<notin> sp_name ` set ps"
  by (auto simp: find_None_iff)

lemma stored_prefix_subset: "set (stored_prefix ps) \<subseteq> set ps"
  by (auto simp: stored_prefix_def dest: set_takeWhileD)

lemma stored_prefix_all: "\<forall>p\<in>set ps. \<not> isl (the_artifact p) \<Longrightarrow> stored_prefix ps = ps"
  by (simp add: stored_prefix_def)

lemma store_artifacts_dom:
  "dom (snd (store_artifacts ps art)) = dom art \<union> sp_name ` set (stored_prefix ps)"
proof (rule set_eqI)
  fix k
  show "k \<in> dom (snd (store_artifacts ps art)) \<longleftrightarrow> k \<in> dom art \<union> sp_name ` set (stored_prefix ps)"
  proof (cases "find (\<lambda>p. sp_name p = k) (rev (stored_prefix ps))")
    case None
    then have "k \<notin> sp_name ` set (stored_prefix ps)"
      by (simp add: find_name_None)
    with None show ?thesis
      by (simp add: dom_def store_artifacts_snd)
  next
    case (Some p)
    then have "k \<in> sp_name ` set (stored_prefix ps)"
      using find_name_None [of k "rev (stored_prefix ps)"] by simp
    with Some show ?thesis
      by (simp add: dom_def store_artifacts_snd)
  qed
qed

lemma store_artifacts_other:
  "k \<notin> sp_name ` set ps \<Longrightarrow> snd (store_artifacts ps art) k = art k"
proof -
  assume "k \<notin> sp_name ` set ps"
  with stored_prefix_subset [of ps] have "k \<notin> sp_name ` set (rev (stored_prefix ps))"
    by auto
  then have "find (\<lambda>p. sp_name p = k) (rev (stored_prefix ps)) = None"
    by (simp add: find_name_None)
  then show ?thesis
    by (simp add: store_artifacts_snd)
qed

lemma find_distinct_name:
  "distinct (map sp_name ps) \<Longrightarrow> p \<in> set ps \<Longrightarrow> find (\<lambda>q. sp_name q = sp_name p) ps = Some p"
proof (induction ps)
  case Nil
  then show ?case by simp
next
  case (Cons q ps)
  show ?case
  proof (cases "q = p")
    case True
    then show ?thesis by simp
  next
    case False
    with Cons.prems have p: "p \<in> set ps" by simp
    with Cons.prems have "sp_name q \<noteq> sp_name p" by auto
    with Cons.IH p Cons.prems show ?thesis by simp
  qed
qed

lemma store_artifacts_own:
  assumes "\<forall>p\<in>set ps. \<not> isl (the_artifact p)" and "distinct (map sp_name ps)" and "p \<in> set ps"
  shows "snd (store_artifacts ps art) (sp_name p) = Some (ParserArtifact (projr (the_artifact p)))"
proof -
  from assms(2) have "distinct (map sp_name (rev ps))"
    by (simp add: rev_map [symmetric])
  moreover from assms(3) have "p \<in> set (rev ps)"
    by simp
  ultimately have "find (\<lambda>q. sp_name q = sp_name p) (rev ps) = Some p"
    by (rule find_distinct_name)
  with stored_prefix_all [OF assms(1)] show ?thesis
    by (simp add: store_artifacts_snd)
qed

lemma store_artifacts_returns:
  "\<forall>p\<in>set ps. \<not> isl (the_artifact p) \<Longrightarrow> fst (store_artifacts ps art) = None"
proof -
  assume "\<forall>p\<in>set ps. \<not> isl (the_artifact p)"
  then have "find (\<lambda>p. isl (the_artifact p)) ps = None"
    by (simp add: find_None_iff)
  then show ?thesis
    by (simp add: store_artifacts_fst)
qed

lemma artifact_inv_perform: "artifact_inv url b \<Longrightarrow> artifact_inv url (perform b c)"
proof (cases c)
  case (ParseLine line)
  assume inv: "artifact_inv url b"
  have "sp_name ` set (parsers (perform b c)) = sp_name ` set (parsers b)"
    unfolding names_set perform_names ..
  with inv show ?thesis
    by (simp add: artifact_inv_def ParseLine parse_line_fields)
next
  case GetArtifact
  assume inv: "artifact_inv url b"
  let ?A = "snd (store_artifacts (parsers b) (artifact b))"
  have b': "artifact (perform b c) = ?A" "parsers (perform b c) = parsers b"
    by (simp_all add: GetArtifact get_artifact_eq)
  have "dom ?A \<subseteq> dom (artifact b) \<union> sp_name ` set (parsers b)"
    using stored_prefix_subset [of "parsers b"] by (auto simp: store_artifacts_dom)
  moreover have "dom (artifact b) \<subseteq> dom ?A"
    by (simp add: store_artifacts_dom)
  moreover have "?A ''logurl'' = artifact b ''logurl''" if "''logurl'' \<notin> sp_name ` set (parsers b)"
    using that by (rule store_artifacts_other)
  ultimately show ?thesis
    using inv unfolding artifact_inv_def b' by auto
qed

lemma artifact_inv_run: "artifact_inv url b \<Longrightarrow> artifact_inv url (run b cs)"
  by (induction cs arbitrary: b) (simp_all add: artifact_inv_perform)

lemma artifact_inv_constructed:
  "b \<in> variants M url check_errors \<Longrightarrow> artifact_inv url b"
  by (auto simp: variants_def artifact_inv_def ArtifactBuilderBase_def BuildbotJobArtifactBuilder_def
        BuildbotLogViewArtifactBuilder_def BuildbotPerformanceDataArtifactBuilder_def)

lemma parse_line_artifact_update:
  "parse_line (b\<lparr>artifact := a\<rparr>) line =
     (fst (parse_line b line), (snd (parse_line b line))\<lparr>artifact := a\<rparr>)"
  by (simp add: parse_line_eq)

lemma store_artifacts_cong:
  assumes "\<forall>p\<in>set ps. \<not> isl (the_artifact p)"
    and "\<And>k. k \<notin> sp_name ` set ps \<Longrightarrow> art k = art' k"
  shows "snd (store_artifacts ps art) = snd (store_artifacts ps art')"
proof (rule ext)
  fix k
  show "snd (store_artifacts ps art) k = snd (store_artifacts ps art') k"
  proof (cases "find (\<lambda>p. sp_name p = k) (rev ps)")
    case None
    then have "k \<notin> sp_name ` set ps"
      using find_name_None [of k "rev ps"] by simp
    then have "art k = art' k"
      by (rule assms(2))
    with None show ?thesis
      by (simp add: store_artifacts_snd stored_prefix_all [OF assms(1)])
  next
    case (Some p)
    then show ?thesis
      by (simp add: store_artifacts_snd stored_prefix_all [OF assms(1)])
  qed
qed

lemma get_artifact_forgets:
  "fst (get_artifact (snd (parse_line (snd (get_artifact b)) line)))
     = fst (get_artifact (snd (parse_line b line)))"
proof -
  let ?A = "snd (store_artifacts (parsers b) (artifact b))"
  let ?b' = "snd (parse_line b line)"
  let ?ps' = "parsers ?b'"
  have b1: "snd (get_artifact b) = b\<lparr>artifact := ?A\<rparr>"
    by (simp add: get_artifact_eq)
  have fields: "parsers (?b'\<lparr>artifact := ?A\<rparr>) = ?ps'" "artifact (?b'\<lparr>artifact := ?A\<rparr>) = ?A"
    "artifact ?b' = artifact b"
    by (simp_all add: parse_line_fields)
  have names: "sp_name ` set ?ps' = sp_name ` set (parsers b)"
    using perform_names [of b "ParseLine line"] unfolding names_set by simp
  have fst_eq: "fst (store_artifacts ?ps' ?A) = fst (store_artifacts ?ps' (artifact b))"
    by (simp add: store_artifacts_fst)
  show ?thesis
  proof (cases "find (\<lambda>p. isl (the_artifact p)) ?ps'")
    case None
    then have ok: "\<forall>p\<in>set ?ps'. \<not> isl (the_artifact p)"
      by (simp add: find_None_iff)
    have "snd (store_artifacts ?ps' ?A) = snd (store_artifacts ?ps' (artifact b))"
    proof (rule store_artifacts_cong [OF ok])
      fix k
      assume "k \<notin> sp_name ` set ?ps'"
      with names have "k \<notin> sp_name ` set (parsers b)"
        by simp
      then show "?A k = artifact b k"
        by (rule store_artifacts_other)
    qed
    with fst_eq show ?thesis
      unfolding b1 parse_line_artifact_update snd_conv
      by (simp add: get_artifact_eq fields split: option.splits)
  next
    case (Some p)
    then show ?thesis
      unfolding b1 parse_line_artifact_update snd_conv
      by (simp add: get_artifact_eq fields store_artifacts_fst split: option.splits)
  qed
qed

lemma get_artifact_result:
  "fst (get_artifact b) =
     (case find (\<lambda>p. isl (the_artifact p)) (parsers b) of
        Some p \<Rightarrow> Inl (projl (the_artifact p))
      | None \<Rightarrow>
          Inr (\<lambda>k. case find (\<lambda>p. sp_name p = k) (rev (parsers b)) of
                     None \<Rightarrow> artifact b k
                   | Some p \<Rightarrow> Some (ParserArtifact (projr (the_artifact p)))))"
proof (cases "find (\<lambda>p. isl (the_artifact p)) (parsers b)")
  case None
  then have ok: "\<forall>p\<in>set (parsers b). \<not> isl (the_artifact p)"
    by (simp add: find_None_iff)
  have "snd (store_artifacts (parsers b) (artifact b)) =
          (\<lambda>k. case find (\<lambda>p. sp_name p = k) (rev (parsers b)) of
                     None \<Rightarrow> artifact b k
                   | Some p \<Rightarrow> Some (ParserArtifact (projr (the_artifact p))))"
    by (rule ext) (simp add: store_artifacts_snd stored_prefix_all [OF ok])
  with None show ?thesis
    by (simp add: get_artifact_eq store_artifacts_fst)
next
  case (Some p)
  then show ?thesis
    by (simp add: get_artifact_eq store_artifacts_fst)
qed

lemma get_artifact_builder:
  "snd (get_artifact b) =
     b\<lparr>artifact :=
         (\<lambda>k. case find (\<lambda>p. sp_name p = k) (rev (stored_prefix (parsers b))) of
                None \<Rightarrow> artifact b k
              | Some p \<Rightarrow> Some (ParserArtifact (projr (the_artifact p))))\<rparr>"
proof -
  have "snd (store_artifacts (parsers b) (artifact b)) =
         (\<lambda>k. case find (\<lambda>p. sp_name p = k) (rev (stored_prefix (parsers b))) of
                None \<Rightarrow> artifact b k
              | Some p \<Rightarrow> Some (ParserArtifact (projr (the_artifact p))))"
    by (rule ext) (simp add: store_artifacts_snd)
  then show ?thesis
    by (simp add: get_artifact_eq)
qed

lemma parse_line_after_get_artifact:
  "parsers (snd (parse_line (snd (get_artifact b)) line)) = parsers (snd (parse_line b line))"
  "lineno (snd (parse_line (snd (get_artifact b)) line)) = lineno (snd (parse_line b line))"
  "fst (parse_line (snd (get_artifact b)) line) = fst (parse_line b line)"
  by (simp_all add: parse_line_eq get_artifact_fields)

lemma demo_job_builder_artifact:
  "artifact (BuildbotJobArtifactBuilder demo_module url) = [''logurl'' \<mapsto> LogUrl url]"
  by (simp add: BuildbotJobArtifactBuilder_def ArtifactBuilderBase_def)

lemma singleton_nth: "length xs = Suc 0 \<Longrightarrow> xs = [xs ! 0]"
  by (cases xs) simp_all

text \<open>
  C8. \<^verbatim>\<open>get_artifact\<close> raises what the first sub-parser whose \<^verbatim>\<open>get_artifact\<close> raises
  raised, and otherwise returns the dictionary in which every sub-parser's name holds
  what that sub-parser's \<^verbatim>\<open>get_artifact\<close> gives for the sub-parser as it is now (the
  last one of that name in the list, should two share it) and every other key holds
  what the builder's dictionary held; that dictionary is what it leaves in the builder.
  So calling it twice in a row gives the same result and the same builder as calling it
  once. The call leaves the sub-parsers and the line counter as they are. When a line is
  processed between two calls, the line does to the sub-parsers what it does without
  the first call, and the second call returns the artifacts of the sub-parsers as the
  line left them.
\<close>

theorem get_artifact_idempotent:
  "get_artifact (snd (get_artifact b)) = get_artifact b
   \<and> parsers (snd (get_artifact b)) = parsers b
   \<and> lineno (snd (get_artifact b)) = lineno b
   \<and> fst (get_artifact (snd (parse_line (snd (get_artifact b)) line)))
       = fst (get_artifact (snd (parse_line b line)))
   \<and> fst (get_artifact b) =
       (case find (\<lambda>p. isl (the_artifact p)) (parsers b) of
          Some p \<Rightarrow> Inl (projl (the_artifact p))
        | None \<Rightarrow>
            Inr (\<lambda>k. case find (\<lambda>p. sp_name p = k) (rev (parsers b)) of
                       None \<Rightarrow> artifact b k
                     | Some p \<Rightarrow> Some (ParserArtifact (projr (the_artifact p)))))
   \<and> snd (get_artifact b) =
       b\<lparr>artifact :=
           (\<lambda>k. case find (\<lambda>p. sp_name p = k) (rev (stored_prefix (parsers b))) of
                  None \<Rightarrow> artifact b k
                | Some p \<Rightarrow> Some (ParserArtifact (projr (the_artifact p))))\<rparr>
   \<and> parsers (snd (parse_line (snd (get_artifact b)) line))
       = parsers (snd (parse_line b line))
   \<and> fst (get_artifact (snd (parse_line (snd (get_artifact b)) line))) =
       (case find (\<lambda>p. isl (the_artifact p)) (parsers (snd (parse_line b line))) of
          Some p \<Rightarrow> Inl (projl (the_artifact p))
        | None \<Rightarrow>
            Inr (\<lambda>k. case find (\<lambda>p. sp_name p = k)
                              (rev (parsers (snd (parse_line b line)))) of
                       None \<Rightarrow> artifact b k
                     | Some p \<Rightarrow> Some (ParserArtifact (projr (the_artifact p)))))
   \<and> (\<forall>i<length (parsers b).
         parsers (snd (parse_line b line)) ! i =
           (if is_complete (parsers b ! i)
               \<or> (\<exists>j<i. raised (parsers b ! j) (delivered line) (lineno b) \<noteq> None)
            then parsers b ! i
            else invoke (parsers b ! i) (delivered line) (lineno b)))"
proof (intro conjI allI impI)
  show "get_artifact (snd (get_artifact b)) = get_artifact b"
    by (simp add: get_artifact_eq store_artifacts_twice split: option.splits)
  show "parsers (snd (get_artifact b)) = parsers b"
    by (rule get_artifact_fields)
  show "lineno (snd (get_artifact b)) = lineno b"
    by (rule get_artifact_fields)
  show forgets: "fst (get_artifact (snd (parse_line (snd (get_artifact b)) line)))
       = fst (get_artifact (snd (parse_line b line)))"
    by (rule get_artifact_forgets)
  show "fst (get_artifact b) =
       (case find (\<lambda>p. isl (the_artifact p)) (parsers b) of
          Some p \<Rightarrow> Inl (projl (the_artifact p))
        | None \<Rightarrow>
            Inr (\<lambda>k. case find (\<lambda>p. sp_name p = k) (rev (parsers b)) of
                       None \<Rightarrow> artifact b k
                     | Some p \<Rightarrow> Some (ParserArtifact (projr (the_artifact p)))))"
    by (rule get_artifact_result)
  show "snd (get_artifact b) =
       b\<lparr>artifact :=
           (\<lambda>k. case find (\<lambda>p. sp_name p = k) (rev (stored_prefix (parsers b))) of
                  None \<Rightarrow> artifact b k
                | Some p \<Rightarrow> Some (ParserArtifact (projr (the_artifact p))))\<rparr>"
    by (rule get_artifact_builder)
  show "parsers (snd (parse_line (snd (get_artifact b)) line))
       = parsers (snd (parse_line b line))"
    by (rule parse_line_after_get_artifact)
  have a: "artifact (snd (parse_line b line)) = artifact b"
    by (rule parse_line_fields)
  show "fst (get_artifact (snd (parse_line (snd (get_artifact b)) line))) =
       (case find (\<lambda>p. isl (the_artifact p)) (parsers (snd (parse_line b line))) of
          Some p \<Rightarrow> Inl (projl (the_artifact p))
        | None \<Rightarrow>
            Inr (\<lambda>k. case find (\<lambda>p. sp_name p = k)
                              (rev (parsers (snd (parse_line b line)))) of
                       None \<Rightarrow> artifact b k
                     | Some p \<Rightarrow> Some (ParserArtifact (projr (the_artifact p)))))"
    unfolding forgets get_artifact_result [of "snd (parse_line b line)"] a ..
next
  fix i
  assume "i < length (parsers b)"
  then show "parsers (snd (parse_line b line)) ! i =
           (if is_complete (parsers b ! i)
               \<or> (\<exists>j<i. raised (parsers b ! j) (delivered line) (lineno b) \<noteq> None)
            then parsers b ! i
            else invoke (parsers b ! i) (delivered line) (lineno b))"
    by (rule parse_line_parsers_nth)
qed

theorem get_artifact_idempotent_witness:
  "fst (get_artifact (BuildbotJobArtifactBuilder demo_module (Some ''http://x/log.txt'')))
     = Inr [''logurl'' \<mapsto> LogUrl (Some ''http://x/log.txt''),
            ''job_details'' \<mapsto> ParserArtifact []]
   \<and> fst (get_artifact (snd (get_artifact
            (BuildbotJobArtifactBuilder demo_module (Some ''http://x/log.txt'')))))
     = Inr [''logurl'' \<mapsto> LogUrl (Some ''http://x/log.txt''),
            ''job_details'' \<mapsto> ParserArtifact []]
   \<and> fst (get_artifact (snd (parse_line (snd (get_artifact
            (BuildbotJobArtifactBuilder demo_module (Some ''http://x/log.txt'')))) ''a'')))
     = Inr [''logurl'' \<mapsto> LogUrl (Some ''http://x/log.txt''),
            ''job_details'' \<mapsto> ParserArtifact [(''a'', 0)]]
   \<and> artifact (snd (get_artifact
            (BuildbotJobArtifactBuilder demo_module (Some ''http://x/log.txt''))))
     = [''logurl'' \<mapsto> LogUrl (Some ''http://x/log.txt''),
        ''job_details'' \<mapsto> ParserArtifact []]
   \<and> lineno (snd (get_artifact
            (BuildbotJobArtifactBuilder demo_module (Some ''http://x/log.txt'')))) = 0"
proof -
  let ?b = "BuildbotJobArtifactBuilder demo_module (Some ''http://x/log.txt'')"
  let ?b' = "snd (parse_line ?b ''a'')"
  note inst = get_artifact_idempotent [of ?b "''a''"]
  note c1 = inst [THEN conjunct1]
  note r2 = inst [THEN conjunct2]
  note r3 = r2 [THEN conjunct2]
  note c3 = r3 [THEN conjunct1]
  note r4 = r3 [THEN conjunct2]
  note r5 = r4 [THEN conjunct2]
  note c5 = r5 [THEN conjunct1]
  note r6 = r5 [THEN conjunct2]
  note c6 = r6 [THEN conjunct1]
  note r7 = r6 [THEN conjunct2]
  note r8 = r7 [THEN conjunct2]
  note c8 = r8 [THEN conjunct1]
  note c9 = r8 [THEN conjunct2]
  have ok: "find (\<lambda>p. isl (the_artifact p)) (parsers ?b) = None"
    "stored_prefix (parsers ?b) = parsers ?b"
    by (simp_all add: demo_job_builder the_artifact_def demo_parser_def stored_prefix_def)
  have first: "fst (get_artifact ?b)
     = Inr [''logurl'' \<mapsto> LogUrl (Some ''http://x/log.txt''),
            ''job_details'' \<mapsto> ParserArtifact []]"
    unfolding c5 ok
    by (auto simp: demo_job_builder demo_job_builder_artifact the_artifact_def demo_parser_def
          fun_eq_iff)
  from c1 have "fst (get_artifact (snd (get_artifact ?b))) = fst (get_artifact ?b)"
    by simp
  with first have again: "fst (get_artifact (snd (get_artifact ?b)))
     = Inr [''logurl'' \<mapsto> LogUrl (Some ''http://x/log.txt''),
            ''job_details'' \<mapsto> ParserArtifact []]"
    by simp
  have "length (parsers ?b') = Suc 0"
    by (simp add: parse_line_fields demo_job_builder)
  then have "parsers ?b' = [parsers ?b' ! 0]"
    by (rule singleton_nth)
  moreover have "parsers ?b' ! 0 = invoke (demo_parser ''job_details'' True) ''a'' 0"
    using c9 [rule_format, of 0]
    by (simp add: demo_job_builder demo_parser_incomplete demo_bad_delivered)
  ultimately have ps: "parsers ?b' = [invoke (demo_parser ''job_details'' True) ''a'' 0]"
    by simp
  have ok': "find (\<lambda>p. isl (the_artifact p)) (parsers ?b') = None"
    unfolding ps by (simp add: the_artifact_def invoke_def demo_parser_def)
  have second: "fst (get_artifact (snd (parse_line (snd (get_artifact ?b)) ''a'')))
     = Inr [''logurl'' \<mapsto> LogUrl (Some ''http://x/log.txt''),
            ''job_details'' \<mapsto> ParserArtifact [(''a'', 0)]]"
    unfolding c8 ok' unfolding ps
    by (auto simp: demo_job_builder_artifact the_artifact_def invoke_def demo_parser_def
          fun_eq_iff)
  have dict: "artifact (snd (get_artifact ?b))
     = [''logurl'' \<mapsto> LogUrl (Some ''http://x/log.txt''),
        ''job_details'' \<mapsto> ParserArtifact []]"
    unfolding c6 ok
    by (auto simp: demo_job_builder demo_job_builder_artifact the_artifact_def demo_parser_def
          fun_eq_iff)
  from c3 have "lineno (snd (get_artifact ?b)) = 0"
    by (simp add: demo_job_builder)
  with first again second dict show ?thesis
    by (intro conjI)
qed

text \<open>
  C6. For a builder made by any of the three subclasses, after any sequence of calls,
  \<^verbatim>\<open>get_artifact\<close> returns (when no sub-parser's \<^verbatim>\<open>get_artifact\<close> raises) a dictionary
  whose keys are exactly \<^verbatim>\<open>logurl\<close> and the names of the sub-parsers. The sub-parsers'
  names come from \<^verbatim>\<open>parsers.py\<close>: when they differ from each other, each name holds what
  that sub-parser's \<^verbatim>\<open>get_artifact\<close> returns now, and when none of them is
  \<^verbatim>\<open>logurl\<close>, that key holds the url given to the constructor.
\<close>

theorem get_artifact_keys:
  assumes "b0 \<in> variants M url check_errors"
    and "\<forall>p\<in>set (parsers (run b0 cs)). \<not> isl (the_artifact p)"
  shows "\<exists>art. fst (get_artifact (run b0 cs)) = Inr art
           \<and> dom art = insert ''logurl'' (sp_name ` set (parsers b0))
           \<and> (''logurl'' \<notin> sp_name ` set (parsers b0) \<longrightarrow>
                art ''logurl'' = Some (LogUrl url))
           \<and> (distinct (map sp_name (parsers b0)) \<longrightarrow>
                (\<forall>p\<in>set (parsers (run b0 cs)).
                   art (sp_name p) = Some (ParserArtifact (projr (the_artifact p)))))"
proof -
  let ?b = "run b0 cs"
  let ?art = "snd (store_artifacts (parsers ?b) (artifact ?b))"
  have names: "map sp_name (parsers ?b) = map sp_name (parsers b0)"
    by (rule run_names)
  then have names_set': "sp_name ` set (parsers ?b) = sp_name ` set (parsers b0)"
    unfolding names_set by simp
  from assms(1) have "artifact_inv url b0"
    by (rule artifact_inv_constructed)
  then have inv: "artifact_inv url ?b"
    by (rule artifact_inv_run)
  have "fst (get_artifact ?b) = Inr ?art"
    by (simp add: get_artifact_eq store_artifacts_returns [OF assms(2)])
  moreover have "dom ?art = insert ''logurl'' (sp_name ` set (parsers b0))"
    using inv unfolding artifact_inv_def names_set'
    by (auto simp: store_artifacts_dom stored_prefix_all [OF assms(2)] names_set')
  moreover have "?art ''logurl'' = Some (LogUrl url)"
    if "''logurl'' \<notin> sp_name ` set (parsers b0)"
  proof -
    from that have "''logurl'' \<notin> sp_name ` set (parsers ?b)"
      by (simp add: names_set')
    then have "?art ''logurl'' = artifact ?b ''logurl''"
      by (rule store_artifacts_other)
    with inv that show ?thesis
      unfolding artifact_inv_def names_set' by simp
  qed
  moreover have "\<forall>p\<in>set (parsers ?b).
        ?art (sp_name p) = Some (ParserArtifact (projr (the_artifact p)))"
    if "distinct (map sp_name (parsers b0))"
  proof
    fix p
    assume "p \<in> set (parsers ?b)"
    moreover from that have "distinct (map sp_name (parsers ?b))"
      by (simp add: names)
    ultimately show "?art (sp_name p) = Some (ParserArtifact (projr (the_artifact p)))"
      by (intro store_artifacts_own assms(2))
  qed
  ultimately show ?thesis
    by blast
qed

lemma demo_run_parsers:
  "parsers (run (BuildbotLogViewArtifactBuilder demo_module url False)
              [ParseLine ''a'', GetArtifact, ParseLine ''b'']) =
     [(demo_parser ''header'' True)
        \<lparr>sp_state := \<lparr>received = [(''a'', 0), (''b'', 1)], checks_errors = True\<rparr>\<rparr>,
      (demo_parser ''step_data'' False)
        \<lparr>sp_state := \<lparr>received = [(''a'', 0), (''b'', 1)], checks_errors = False\<rparr>\<rparr>]"
  by (simp add: parse_line_eq get_artifact_fields demo_log_view_builder delivered_def
        MAX_LINE_LENGTH_def demo_parser_def)

theorem get_artifact_keys_witness:
  "\<exists>art. fst (get_artifact (run (BuildbotLogViewArtifactBuilder demo_module
                                    (Some ''http://x/log.txt'') False)
                               [ParseLine ''a'', GetArtifact, ParseLine ''b''])) = Inr art
     \<and> dom art = {''logurl'', ''header'', ''step_data''}
     \<and> art ''logurl'' = Some (LogUrl (Some ''http://x/log.txt''))
     \<and> art ''header'' = Some (ParserArtifact [(''a'', 0), (''b'', 1)])
     \<and> art ''step_data'' = Some (ParserArtifact [(''a'', 0), (''b'', 1)])"
proof -
  let ?b0 = "BuildbotLogViewArtifactBuilder demo_module (Some ''http://x/log.txt'') False"
  let ?cs = "[ParseLine ''a'', GetArtifact, ParseLine ''b'']"
  have v: "?b0 \<in> variants demo_module (Some ''http://x/log.txt'') False"
    by (simp add: variants_def)
  have ok: "\<forall>p\<in>set (parsers (run ?b0 ?cs)). \<not> isl (the_artifact p)"
    unfolding demo_run_parsers by (simp add: the_artifact_def demo_parser_def)
  from get_artifact_keys [OF v ok] obtain art where art:
    "fst (get_artifact (run ?b0 ?cs)) = Inr art
     \<and> dom art = insert ''logurl'' (sp_name ` set (parsers ?b0))
     \<and> (''logurl'' \<notin> sp_name ` set (parsers ?b0) \<longrightarrow>
          art ''logurl'' = Some (LogUrl (Some ''http://x/log.txt'')))
     \<and> (distinct (map sp_name (parsers ?b0)) \<longrightarrow>
          (\<forall>p\<in>set (parsers (run ?b0 ?cs)).
             art (sp_name p) = Some (ParserArtifact (projr (the_artifact p)))))" ..
  note a1 = art [THEN conjunct1]
    and a2 = art [THEN conjunct2, THEN conjunct1]
    and a3 = art [THEN conjunct2, THEN conjunct2, THEN conjunct1]
    and a4 = art [THEN conjunct2, THEN conjunct2, THEN conjunct2]
  from a2 have d: "dom art = {''logurl'', ''header'', ''step_data''}"
    by (simp add: demo_log_view_builder demo_parser_def)
  from a3 have u: "art ''logurl'' = Some (LogUrl (Some ''http://x/log.txt''))"
    by (simp add: demo_log_view_builder demo_parser_def)
  from a4 have h: "art ''header'' = Some (ParserArtifact [(''a'', 0), (''b'', 1)])"
    unfolding demo_run_parsers
    by (simp add: demo_log_view_builder demo_parser_def the_artifact_def)
  from a4 have st: "art ''step_data'' = Some (ParserArtifact [(''a'', 0), (''b'', 1)])"
    unfolding demo_run_parsers
    by (simp add: demo_log_view_builder demo_parser_def the_artifact_def)
  from a1 d u h st show ?thesis
    by (intro exI [of _ art] conjI)
qed

section \<open>The three subclasses\<close>

lemma parse_line_name_update:
  "parse_line (b\<lparr>name := nm\<rparr>) line =
     (fst (parse_line b line), (snd (parse_line b line))\<lparr>name := nm\<rparr>)"
  by (simp add: parse_line_eq)

lemma get_artifact_name_update:
  "get_artifact (b\<lparr>name := nm\<rparr>) = (fst (get_artifact b), (snd (get_artifact b))\<lparr>name := nm\<rparr>)"
  by (simp add: get_artifact_eq split: option.splits)

text \<open>
  C7. Each subclass constructs the base builder and then sets only \<^verbatim>\<open>parsers\<close> and
  \<^verbatim>\<open>name\<close>: the job builder has the tinderbox print parser alone and the name
  \<^verbatim>\<open>Job Info\<close>; the log-view builder has the header parser, then the step parser, and
  the name \<^verbatim>\<open>Structured Log\<close>; the performance-data builder has the talos parser
  alone and the name \<^verbatim>\<open>talos_data\<close>. No subclass has a \<^verbatim>\<open>parse_line\<close> or a
  \<^verbatim>\<open>get_artifact\<close> of its own, and the inherited ones do not read the name: they do to
  a renamed builder what they do to the builder.
\<close>

theorem variants_wiring:
  "BuildbotJobArtifactBuilder M url =
     (ArtifactBuilderBase url)\<lparr>parsers := [TinderboxPrintParser M], name := ''Job Info''\<rparr>
   \<and> BuildbotLogViewArtifactBuilder M url check_errors =
     (ArtifactBuilderBase url)
       \<lparr>parsers := [HeaderParser M, StepParser M check_errors], name := ''Structured Log''\<rparr>
   \<and> BuildbotPerformanceDataArtifactBuilder M url check_errors =
     (ArtifactBuilderBase url)\<lparr>parsers := [TalosParser M], name := ''talos_data''\<rparr>
   \<and> parsers (BuildbotJobArtifactBuilder M url) = [TinderboxPrintParser M]
   \<and> name (BuildbotJobArtifactBuilder M url) = ''Job Info''
   \<and> parsers (BuildbotLogViewArtifactBuilder M url check_errors)
       = [HeaderParser M, StepParser M check_errors]
   \<and> name (BuildbotLogViewArtifactBuilder M url check_errors) = ''Structured Log''
   \<and> parsers (BuildbotPerformanceDataArtifactBuilder M url check_errors) = [TalosParser M]
   \<and> name (BuildbotPerformanceDataArtifactBuilder M url check_errors) = ''talos_data''
   \<and> parse_line (b\<lparr>name := nm\<rparr>) line =
       (fst (parse_line b line), (snd (parse_line b line))\<lparr>name := nm\<rparr>)
   \<and> get_artifact (b\<lparr>name := nm\<rparr>) =
       (fst (get_artifact b), (snd (get_artifact b))\<lparr>name := nm\<rparr>)"
  by (simp add: BuildbotJobArtifactBuilder_def BuildbotLogViewArtifactBuilder_def
        BuildbotPerformanceDataArtifactBuilder_def parse_line_name_update
        get_artifact_name_update)

theorem variants_wiring_witness:
  "parsers (BuildbotJobArtifactBuilder demo_module None) = [demo_parser ''job_details'' True]
   \<and> name (BuildbotJobArtifactBuilder demo_module None) = ''Job Info''
   \<and> parsers (BuildbotLogViewArtifactBuilder demo_module None False)
       = [demo_parser ''header'' True, demo_parser ''step_data'' False]
   \<and> name (BuildbotLogViewArtifactBuilder demo_module None False) = ''Structured Log''
   \<and> parsers (BuildbotPerformanceDataArtifactBuilder demo_module None False)
       = [demo_parser ''talos_data'' False]
   \<and> name (BuildbotPerformanceDataArtifactBuilder demo_module None False) = ''talos_data''"
proof -
  note w = variants_wiring [where M = demo_module and url = None and check_errors = False
                             and b = "ArtifactBuilderBase None" and nm = "''x''" and line = "''a''"]
  have m: "TinderboxPrintParser demo_module = demo_parser ''job_details'' True"
    "HeaderParser demo_module = demo_parser ''header'' True"
    "StepParser demo_module False = demo_parser ''step_data'' False"
    "TalosParser demo_module = demo_parser ''talos_data'' False"
    by (simp_all add: demo_module_def)
  note w4 = w [THEN conjunct2, THEN conjunct2, THEN conjunct2]
  note w5 = w4 [THEN conjunct2]
  note w6 = w5 [THEN conjunct2]
  note w7 = w6 [THEN conjunct2]
  note w8 = w7 [THEN conjunct2]
  note w9 = w8 [THEN conjunct2]
  from w4 [THEN conjunct1] w5 [THEN conjunct1] w6 [THEN conjunct1] w7 [THEN conjunct1]
    w8 [THEN conjunct1] w9 [THEN conjunct1]
  show ?thesis
    unfolding m by (intro conjI)
qed

text \<open>
  C3, as the code has it. The log-view builder hands its \<^verbatim>\<open>check_errors\<close> flag,
  unchanged, to the constructor of the step parser. The job builder takes no flag.
  The performance-data builder takes a \<^verbatim>\<open>check_errors\<close> flag and makes its talos
  parser without it: the builder is the same whatever the flag.
\<close>

theorem check_errors_forwarding:
  "parsers (BuildbotLogViewArtifactBuilder M url check_errors)
     = [HeaderParser M, StepParser M check_errors]
   \<and> parsers (BuildbotJobArtifactBuilder M url) = [TinderboxPrintParser M]
   \<and> parsers (BuildbotPerformanceDataArtifactBuilder M url check_errors) = [TalosParser M]
   \<and> BuildbotPerformanceDataArtifactBuilder M url check_errors
     = BuildbotPerformanceDataArtifactBuilder M url check_errors'"
  by (simp add: BuildbotJobArtifactBuilder_def BuildbotLogViewArtifactBuilder_def
        BuildbotPerformanceDataArtifactBuilder_def)

theorem check_errors_forwarding_witness:
  "parsers (BuildbotLogViewArtifactBuilder demo_module None False)
     = [demo_parser ''header'' True, demo_parser ''step_data'' False]
   \<and> BuildbotPerformanceDataArtifactBuilder demo_module None True
     = BuildbotPerformanceDataArtifactBuilder demo_module None False"
  using check_errors_forwarding [of demo_module None False]
    check_errors_forwarding [of demo_module None True False]
  by (simp add: demo_module_def)

text \<open>
  C3 as stated fails for the performance-data builder: with sub-parser classes whose step
  parser depends on the flag, the log-view builders for the two values of the flag
  differ, while the performance-data builder makes its only sub-parser without the flag
  and is the same for both values.
\<close>

theorem check_errors_not_forwarded_counterexample:
  "StepParser demo_module True \<noteq> StepParser demo_module False
   \<and> BuildbotLogViewArtifactBuilder demo_module None True
       \<noteq> BuildbotLogViewArtifactBuilder demo_module None False
   \<and> parsers (BuildbotPerformanceDataArtifactBuilder demo_module None True)
       = [TalosParser demo_module]
   \<and> BuildbotPerformanceDataArtifactBuilder demo_module None True
       = BuildbotPerformanceDataArtifactBuilder demo_module None False"
proof -
  have ne: "demo_parser ''step_data'' True \<noteq> demo_parser ''step_data'' False"
  proof
    assume "demo_parser ''step_data'' True = demo_parser ''step_data'' False"
    then have "sp_state (demo_parser ''step_data'' True) = sp_state (demo_parser ''step_data'' False)"
      by (rule arg_cong)
    then show False
      by (simp add: demo_parser_state)
  qed
  have "BuildbotLogViewArtifactBuilder demo_module None True
          \<noteq> BuildbotLogViewArtifactBuilder demo_module None False"
  proof
    assume "BuildbotLogViewArtifactBuilder demo_module None True
              = BuildbotLogViewArtifactBuilder demo_module None False"
    then have "parsers (BuildbotLogViewArtifactBuilder demo_module None True)
                 = parsers (BuildbotLogViewArtifactBuilder demo_module None False)"
      by (rule arg_cong)
    with ne show False
      by (simp add: demo_log_view_builder)
  qed
  moreover have "StepParser demo_module True \<noteq> StepParser demo_module False"
    using ne by (simp add: demo_module_def)
  ultimately show ?thesis
    by (simp add: BuildbotPerformanceDataArtifactBuilder_def)
qed

end
